theory Spec2Isabelle
  imports Main "HOL-Library.Sublist"
begin

section \<open>Strings\<close>

text \<open>
  A Python \<open>str\<close> is modelled as a \<^typ>\<open>string\<close>: the list of its code points, each
  below 256 (the Latin-1 range, which \<open>str.lower\<close> does not leave). File and term names
  are such strings.
\<close>

definition isspace :: "char \<Rightarrow> bool" where
  \<comment> \<open>the characters \<open>str.split()\<close> and \<open>str.strip()\<close> treat as whitespace, below 256\<close>
  "isspace c =
     (let n = (of_char c :: nat)
      in (9 \<le> n \<and> n \<le> 13) \<or> (28 \<le> n \<and> n \<le> 32) \<or> n = 133 \<or> n = 160)"

definition punctuation :: "string" where
  \<comment> \<open>\<open>string.punctuation\<close>: the ASCII characters 33-47, 58-64, 91-96 and 123-126\<close>
  "punctuation = map char_of ([33..<48] @ [58..<65] @ [91..<97] @ [123..<127] :: nat list)"

definition strip_chars :: "(char \<Rightarrow> bool) \<Rightarrow> string \<Rightarrow> string" where
  \<comment> \<open>\<open>s.strip(...)\<close>: drop the characters of the given class at both ends\<close>
  "strip_chars p s = rev (dropWhile p (rev (dropWhile p s)))"

definition str_strip :: "string \<Rightarrow> string" where
  \<comment> \<open>\<open>s.strip()\<close>\<close>
  "str_strip s = strip_chars isspace s"

fun split_from :: "string \<Rightarrow> string \<Rightarrow> string list" where
  \<comment> \<open>the scan of \<open>s.split()\<close>: the first argument is the word read so far\<close>
  "split_from cur [] = (if cur = [] then [] else [cur])"
| "split_from cur (c # cs) =
     (if isspace c then (if cur = [] then split_from [] cs else cur # split_from [] cs)
      else split_from (cur @ [c]) cs)"

definition str_split :: "string \<Rightarrow> string list" where
  \<comment> \<open>\<open>s.split()\<close>: the maximal runs of non-whitespace characters, in order\<close>
  "str_split s = split_from [] s"

definition lower_char :: "char \<Rightarrow> char" where
  "lower_char c =
     (let n = (of_char c :: nat)
      in if (65 \<le> n \<and> n \<le> 90) \<or> (192 \<le> n \<and> n \<le> 222 \<and> n \<noteq> 215)
         then char_of (n + 32) else c)"

definition str_lower :: "string \<Rightarrow> string" where
  \<comment> \<open>\<open>s.lower()\<close>\<close>
  "str_lower s = map lower_char s"

section \<open>Tokenisation and normalisation\<close>

definition make_list_of_words :: "string \<Rightarrow> string list" where
  "make_list_of_words line = (let line = str_strip line; raw = str_split line in raw)"

definition clean_word :: "string \<Rightarrow> string" where
  "clean_word word =
     (let word = str_strip word;
          new_word = str_lower word;
          new_word_2 = strip_chars (\<lambda>c. c \<in> set punctuation) new_word
      in new_word_2)"

section \<open>Errors and the store of list objects\<close>

datatype error = IndexError | StopIteration | FileNotFoundError

text \<open>
  Python lists are mutable objects reached through references, and \<open>search\<close> and the
  indexer both mutate lists in place. A list object lives in a store, at the address given
  by its position; creating a list appends it to the store. The inverted index is a
  dictionary from terms to references of lists of file names; the title dictionary maps a
  file name to a title (an immutable string).
\<close>

type_synonym ref = nat
type_synonym store = "string list list"
type_synonym inverted_index = "string \<rightharpoonup> ref"

definition new_list :: "string list \<Rightarrow> store \<Rightarrow> store \<times> ref" where
  \<comment> \<open>a fresh list object with the given elements\<close>
  "new_list xs h = (h @ [xs], length h)"

definition well_formed :: "store \<Rightarrow> inverted_index \<Rightarrow> bool" where
  \<comment> \<open>every reference held by the index points to a list of the store\<close>
  "well_formed h index = (\<forall>t a. index t = Some a \<longrightarrow> a < length h)"

definition documents :: "store \<Rightarrow> inverted_index \<Rightarrow> string \<Rightarrow> string list option" where
  \<comment> \<open>the index as Python prints it: term to the contents of its list\<close>
  "documents h index t = map_option (\<lambda>a. h ! a) (index t)"

section \<open>Query engine\<close>

definition find_intersection :: "'a list \<Rightarrow> 'a list \<Rightarrow> 'a list" where
  \<comment> \<open>reads both lists and returns a list it builds itself\<close>
  "find_intersection list1 list2 =
     foldl (\<lambda>intersection elem.
        foldl (\<lambda>intersection i.
           let elem_2 = list2 ! i
           in if elem = elem_2
              then (if elem \<notin> set intersection then intersection @ [elem] else intersection)
              else intersection)
          intersection [0..<length list2])
       [] list1"

fun pop_times :: "nat \<Rightarrow> ref \<Rightarrow> store \<Rightarrow> store \<times> error option" where
  \<comment> \<open>\<open>for j in range(n): l.pop()\<close>; \<open>pop\<close> raises IndexError on an empty list\<close>
  "pop_times 0 l h = (h, None)"
| "pop_times (Suc n) l h =
     (if h ! l = [] then (h, Some IndexError)
      else pop_times n l (h[l := butlast (h ! l)]))"

fun search_rest :: "inverted_index \<Rightarrow> string list \<Rightarrow> nat list \<Rightarrow> store \<Rightarrow> ref
    \<Rightarrow> store \<times> (error + ref)" where
  \<comment> \<open>\<open>for i in range(len(words) - 1)\<close>, from the running \<open>list_of_files\<close>\<close>
  "search_rest index words [] h list_of_files = (h, Inr list_of_files)"
| "search_rest index words (i # is) h list_of_files =
     (let next_term = words ! (i + 1)
      in case index next_term of
           None \<Rightarrow>
             (case pop_times (length (h ! list_of_files)) list_of_files h of
                (h', Some e) \<Rightarrow> (h', Inl e)
              | (h', None) \<Rightarrow> search_rest index words is h' list_of_files)
         | Some list2 \<Rightarrow>
             (case new_list (find_intersection (h ! list_of_files) (h ! list2)) h of
                (h', r) \<Rightarrow> search_rest index words is h' r))"

definition search :: "store \<Rightarrow> inverted_index \<Rightarrow> string \<Rightarrow> store \<times> (error + ref)" where
  "search h0 index query =
     (let words = str_split query;
          (h, list_of_files) = new_list [] h0
      in case words of
           [] \<Rightarrow> (h, Inl IndexError)
         | first_term # _ \<Rightarrow>
             let h = (if length words = 1
                      then foldl (\<lambda>h word. case index word of
                                    None \<Rightarrow> h
                                  | Some l \<Rightarrow> h[list_of_files := h ! list_of_files @ h ! l])
                             h words
                      else h)
             in if length words > 1
                then let h = (case index first_term of
                                None \<Rightarrow> h
                              | Some l \<Rightarrow> h[list_of_files := h ! list_of_files @ h ! l])
                     in search_rest index words [0..<length words - 1] h list_of_files
                else (h, Inr list_of_files))"

definition search_result :: "store \<Rightarrow> inverted_index \<Rightarrow> string \<Rightarrow> error + string list" where
  \<comment> \<open>what the caller of \<open>search\<close> sees: the exception, or the contents of the returned list\<close>
  "search_result h index query =
     (case search h index query of
        (h', Inl e) \<Rightarrow> Inl e
      | (h', Inr r) \<Rightarrow> Inr (h' ! r))"

section \<open>Indexer\<close>

text \<open>
  The state the indexer works on: the store, and the two dictionaries the caller passes in.
  A file system maps a file name to the text of the file as the text-mode reader delivers
  it (decoded, line ends already translated to the newline character); a name it does not
  map cannot be opened.
\<close>

record state =
  heap :: store
  index :: inverted_index
  file_titles :: "string \<rightharpoonup> string"

type_synonym file_system = "string \<rightharpoonup> string"

definition newline :: char where
  "newline = CHR 0x0A"

fun readlines :: "string \<Rightarrow> string list" where
  \<comment> \<open>the lines a file object yields: each ends with its newline, the last one maybe not\<close>
  "readlines [] = []"
| "readlines (c # cs) =
     (if c = newline then [c] # readlines cs
      else (case readlines cs of [] \<Rightarrow> [[c]] | l # ls \<Rightarrow> (c # l) # ls))"

definition add_term_to_index :: "state \<Rightarrow> string \<Rightarrow> string \<Rightarrow> state" where
  "add_term_to_index s term file =
     (case index s term of
        None \<Rightarrow>
          (case new_list [] (heap s) of
             (h, l) \<Rightarrow> s\<lparr>heap := h[l := h ! l @ [file]], index := (index s)(term \<mapsto> l)\<rparr>)
      | Some l \<Rightarrow>
          if file \<notin> set (heap s ! l)
          then s\<lparr>heap := (heap s)[l := heap s ! l @ [file]]\<rparr>
          else s)"

definition index_words :: "string \<Rightarrow> state \<Rightarrow> string list \<Rightarrow> state" where
  \<comment> \<open>\<open>for word in words: term = clean_word(word); if term != "": add_term_to_index(...)\<close>\<close>
  "index_words file s words =
     foldl (\<lambda>s word. let term = clean_word word
                      in if term \<noteq> [] then add_term_to_index s term file else s)
       s words"

definition index_file :: "file_system \<Rightarrow> state \<Rightarrow> string \<Rightarrow> error + state" where
  \<comment> \<open>the body of the loop over the file names\<close>
  "index_file fs s file =
     (case fs file of
        None \<Rightarrow> Inl FileNotFoundError
      | Some text \<Rightarrow>
          (case readlines text of
             [] \<Rightarrow> Inl StopIteration
           | first # rest \<Rightarrow>
               let title = butlast first;
                   words_in_title = make_list_of_words title;
                   s = (if file_titles s title = None
                        then s\<lparr>file_titles := (file_titles s)(file \<mapsto> title)\<rparr>
                        else s);
                   s = index_words file s words_in_title
               in Inr (foldl (\<lambda>s line. index_words file s (make_list_of_words line))
                         s rest)))"

fun create_index :: "file_system \<Rightarrow> string list \<Rightarrow> state \<Rightarrow> state \<times> error option" where
  \<comment> \<open>the dictionaries are updated in place: what was done before an exception remains\<close>
  "create_index fs [] s = (s, None)"
| "create_index fs (file # filenames) s =
     (case index_file fs s file of
        Inl e \<Rightarrow> (s, Some e)
      | Inr s' \<Rightarrow> create_index fs filenames s')"

definition empty_state :: state where
  \<comment> \<open>\<open>index = {}\<close>, \<open>file_titles = {}\<close>\<close>
  "empty_state = \<lparr>heap = [], index = Map.empty, file_titles = Map.empty\<rparr>"

section \<open>Auxiliary notions for the proofs\<close>

definition collect :: "'a list \<Rightarrow> 'a list \<Rightarrow> 'a list \<Rightarrow> 'a list" where
  "collect list2 acc list1 =
     foldl (\<lambda>acc elem. if elem \<in> set list2 \<and> elem \<notin> set acc then acc @ [elem] else acc)
       acc list1"

definition narrow :: "store \<Rightarrow> inverted_index \<Rightarrow> string list \<Rightarrow> string \<Rightarrow> string list" where
  "narrow h idx acc t =
     (case idx t of None \<Rightarrow> [] | Some l \<Rightarrow> find_intersection acc (h ! l))"

definition no_duplicates :: "store \<Rightarrow> inverted_index \<Rightarrow> bool" where
  "no_duplicates h idx = (\<forall>t ds. documents h idx t = Some ds \<longrightarrow> distinct ds)"

definition sound :: "state \<Rightarrow> bool" where
  "sound s = well_formed (heap s) (index s)"

definition has :: "state \<Rightarrow> string \<Rightarrow> string \<Rightarrow> bool" where
  "has s term file =
     (\<exists>l. index s term = Some l \<and> l < length (heap s) \<and> file \<in> set (heap s ! l))"

definition set_title :: "state \<Rightarrow> string \<Rightarrow> string \<Rightarrow> state" where
  "set_title s file title =
     (if file_titles s title = None
      then s\<lparr>file_titles := (file_titles s)(file \<mapsto> title)\<rparr>
      else s)"

definition titled :: "state \<Rightarrow> string \<Rightarrow> string \<Rightarrow> bool" where
  "titled s file title = (file_titles s title \<noteq> None \<or> file_titles s file = Some title)"

definition file_words :: "string \<Rightarrow> string list \<Rightarrow> string list" where
  "file_words first rest = concat (map make_list_of_words (butlast first # rest))"

definition absorbed :: "file_system \<Rightarrow> state \<Rightarrow> string \<Rightarrow> bool" where
  "absorbed fs s file =
     (case fs file of
        None \<Rightarrow> True
      | Some text \<Rightarrow>
          (case readlines text of
             [] \<Rightarrow> True
           | first # rest \<Rightarrow>
               titled s file (butlast first)
               \<and> (\<forall>w\<in>set (file_words first rest).
                     clean_word w \<noteq> [] \<longrightarrow> has s (clean_word w) file)))"

definition sample_files :: file_system where
  "sample_files =
     [''a.txt'' \<mapsto> ''A'' @ [newline] @ ''apple Apple'' @ [newline],
      ''b.txt'' \<mapsto> ''B'' @ [newline] @ ''apple, b'']"

definition sample_state :: state where
  "sample_state =
     \<lparr>heap = [[''a.txt'']], index = [''apple'' \<mapsto> 0], file_titles = [''a.txt'' \<mapsto> ''A'']\<rparr>"

section \<open>Properties of the intersection\<close>

lemma scan_by_position:
  "foldl (\<lambda>acc i. g acc (ys ! i)) acc [0..<length ys] = foldl g acc ys"
proof -
  have "foldl g acc (map (\<lambda>i. ys ! i) [0..<length ys]) = foldl g acc ys"
    by (simp only: map_nth)
  then show ?thesis
    by (simp only: foldl_map)
qed

lemma scan_for_elem:
  "foldl (\<lambda>acc elem_2. if elem = elem_2
                        then (if elem \<notin> set acc then acc @ [elem] else acc)
                        else acc) acc ys
   = (if elem \<in> set ys \<and> elem \<notin> set acc then acc @ [elem] else acc)"
  by (induction ys arbitrary: acc) auto

lemma find_intersection_collect:
  "find_intersection list1 list2 = collect list2 [] list1"
proof -
  have "\<And>acc elem.
      foldl (\<lambda>acc i. let elem_2 = list2 ! i
                      in if elem = elem_2
                         then (if elem \<notin> set acc then acc @ [elem] else acc)
                         else acc) acc [0..<length list2]
      = (if elem \<in> set list2 \<and> elem \<notin> set acc then acc @ [elem] else acc)"
    unfolding Let_def
    by (simp add: scan_by_position [where g = "\<lambda>acc elem_2. if elem = elem_2
                        then (if elem \<notin> set acc then acc @ [elem] else acc)
                        else acc" for elem] scan_for_elem)
  then show ?thesis
    by (simp add: find_intersection_def collect_def)
qed

lemma collect_Nil [simp]: "collect ys acc [] = acc"
  by (simp add: collect_def)

lemma collect_Cons [simp]:
  "collect ys acc (x # xs) =
     collect ys (if x \<in> set ys \<and> x \<notin> set acc then acc @ [x] else acc) xs"
  by (simp add: collect_def)

lemma set_collect: "set (collect ys acc xs) = set acc \<union> (set xs \<inter> set ys)"
  by (induction xs arbitrary: acc) auto

lemma distinct_collect: "distinct acc \<Longrightarrow> distinct (collect ys acc xs)"
  by (induction xs arbitrary: acc) auto

lemma collect_subseq: "\<exists>zs. collect ys acc xs = acc @ zs \<and> subseq zs xs"
proof (induction xs arbitrary: acc)
  case Nil
  then show ?case by simp
next
  case (Cons x xs)
  show ?case
  proof (cases "x \<in> set ys \<and> x \<notin> set acc")
    case True
    from Cons.IH [of "acc @ [x]"] obtain zs
      where "collect ys (acc @ [x]) xs = (acc @ [x]) @ zs" and "subseq zs xs" by blast
    with True have "collect ys acc (x # xs) = acc @ (x # zs) \<and> subseq (x # zs) (x # xs)"
      by simp
    then show ?thesis by blast
  next
    case False
    from Cons.IH [of acc] obtain zs
      where "collect ys acc xs = acc @ zs" and "subseq zs xs" by blast
    with False have "collect ys acc (x # xs) = acc @ zs \<and> subseq zs (x # xs)"
      by auto
    then show ?thesis by blast
  qed
qed

lemma collect_all:
  "distinct (acc @ xs) \<Longrightarrow> set xs \<subseteq> set ys \<Longrightarrow> collect ys acc xs = acc @ xs"
  by (induction xs arbitrary: acc) auto

lemma set_find_intersection: "set (find_intersection a b) = set a \<inter> set b"
  by (simp add: find_intersection_collect set_collect)

text \<open>
  Claim C5. For all lists \<open>a\<close> and \<open>b\<close>, \<open>find_intersection a b\<close> holds exactly the elements
  that occur in both \<open>a\<close> and \<open>b\<close>, each of them once, in the order in which \<open>a\<close> has them
  (it is a subsequence of \<open>a\<close>).
\<close>

theorem find_intersection_spec:
  "set (find_intersection a b) = set a \<inter> set b
   \<and> distinct (find_intersection a b)
   \<and> subseq (find_intersection a b) a"
proof -
  have "subseq (collect b [] a) a"
    using collect_subseq [of b "[]" a] by auto
  then have "subseq (find_intersection a b) a"
    by (simp only: find_intersection_collect)
  moreover have "distinct (find_intersection a b)"
    by (simp add: find_intersection_collect distinct_collect)
  ultimately show ?thesis
    by (simp add: set_find_intersection)
qed

lemma find_intersection_self: "distinct l \<Longrightarrow> find_intersection l l = l"
  by (simp add: find_intersection_collect collect_all)

lemma find_intersection_Nil [simp]: "find_intersection [] l = []"
  by (simp add: find_intersection_collect)

section \<open>Properties of the query engine\<close>

lemma narrow_None: "idx t = None \<Longrightarrow> narrow h idx acc t = []"
  by (simp add: narrow_def)

lemma narrow_Some: "idx t = Some l \<Longrightarrow> narrow h idx acc t = find_intersection acc (h ! l)"
  by (simp add: narrow_def)

lemma foldl_narrow_Nil: "foldl (narrow h idx) [] ts = []"
  by (induction ts) (simp_all add: narrow_def split: option.split)

lemma pop_times_take:
  "l < length h \<Longrightarrow> n \<le> length (h ! l) \<Longrightarrow>
     pop_times n l h = (h[l := take (length (h ! l) - n) (h ! l)], None)"
proof (induction n arbitrary: h)
  case 0
  then show ?case by simp
next
  case (Suc n)
  let ?h = "h[l := butlast (h ! l)]"
  from Suc.prems have ne: "h ! l \<noteq> []" by auto
  from Suc.prems have "l < length ?h" and "n \<le> length (?h ! l)" by auto
  from Suc.IH [OF this]
  have "pop_times n l ?h = (?h[l := take (length (?h ! l) - n) (?h ! l)], None)" .
  moreover from Suc.prems
  have "take (length (?h ! l) - n) (?h ! l) = take (length (h ! l) - Suc n) (h ! l)"
    by (simp add: butlast_conv_take min_def)
  ultimately show ?case using ne by simp
qed

lemma pop_times_all:
  "l < length h \<Longrightarrow> pop_times (length (h ! l)) l h = (h[l := []], None)"
  using pop_times_take [of l h "length (h ! l)"] by simp

lemma search_rest_frame:
  "length h0 \<le> lf \<Longrightarrow> lf < length h \<Longrightarrow> take (length h0) h = h0 \<Longrightarrow>
     take (length h0) (fst (search_rest idx words is h lf)) = h0"
proof (induction "is" arbitrary: h lf)
  case Nil
  then show ?case by simp
next
  case (Cons i "is")
  show ?case
  proof (cases "idx (words ! (i + 1))")
    case None
    have "take (length h0) (h[lf := []]) = h0"
      using Cons.prems by simp
    with Cons.IH [of lf "h[lf := []]"] Cons.prems None show ?thesis
      by (simp add: pop_times_all)
  next
    case (Some l2)
    let ?h = "h @ [find_intersection (h ! lf) (h ! l2)]"
    have "take (length h0) ?h = h0"
      using Cons.prems by simp
    with Cons.IH [of "length h" ?h] Cons.prems Some show ?thesis
      by (simp add: new_list_def)
  qed
qed

lemma search_rest_result:
  assumes "well_formed h0 idx"
  shows "length h0 \<le> lf \<Longrightarrow> lf < length h \<Longrightarrow> take (length h0) h = h0 \<Longrightarrow>
     \<exists>h' r. search_rest idx words is h lf = (h', Inr r) \<and> r < length h'
       \<and> h' ! r = foldl (narrow h0 idx) (h ! lf) (map (\<lambda>i. words ! (i + 1)) is)"
proof (induction "is" arbitrary: h lf)
  case Nil
  then show ?case by simp
next
  case (Cons i "is")
  show ?case
  proof (cases "idx (words ! (i + 1))")
    case None
    have "take (length h0) (h[lf := []]) = h0"
      using Cons.prems by simp
    with Cons.IH [of lf "h[lf := []]"] Cons.prems None show ?thesis
      by (simp add: pop_times_all narrow_None foldl_narrow_Nil)
  next
    case (Some l2)
    let ?h = "h @ [find_intersection (h ! lf) (h ! l2)]"
    from assms Some have "l2 < length h0"
      by (simp add: well_formed_def)
    with Cons.prems have "h ! l2 = h0 ! l2"
      by (metis nth_take)
    moreover have "take (length h0) ?h = h0"
      using Cons.prems by simp
    ultimately show ?thesis
      using Cons.IH [of "length h" ?h] Cons.prems Some
      by (simp add: new_list_def narrow_Some)
  qed
qed

lemma rest_of_words:
  "map (\<lambda>i. (w # ws) ! (i + 1)) [0..<length (w # ws) - 1] = ws"
  by (simp add: map_nth)

lemma search_frame_store: "take (length h) (fst (search h idx query)) = h"
proof (cases "str_split query")
  case Nil
  then show ?thesis by (simp add: search_def new_list_def)
next
  case (Cons w ws)
  show ?thesis
  proof (cases ws)
    case Nil
    with Cons show ?thesis
      by (simp add: search_def new_list_def split: option.split)
  next
    case (Cons w' ws')
    let ?h = "case idx w of None \<Rightarrow> h @ [[]]
              | Some l \<Rightarrow> (h @ [[]])[length h := (h @ [[]]) ! length h @ (h @ [[]]) ! l]"
    have "length h < length ?h" and "take (length h) ?h = h"
      by (simp_all split: option.split)
    from search_rest_frame [OF order_refl this]
    show ?thesis using \<open>str_split query = w # ws\<close> Cons
      by (simp add: search_def new_list_def Let_def)
  qed
qed

lemma search_returns:
  assumes "well_formed h idx" and "str_split query = w # ws"
  shows "\<exists>h' r. search h idx query = (h', Inr r) \<and> r < length h'
     \<and> h' ! r = foldl (narrow h idx) (case idx w of None \<Rightarrow> [] | Some l \<Rightarrow> h ! l) ws"
proof (cases ws)
  case Nil
  with assms show ?thesis
    by (auto simp add: search_def new_list_def well_formed_def nth_append split: option.split)
next
  case (Cons w' ws')
  let ?h = "case idx w of None \<Rightarrow> h @ [[]]
            | Some l \<Rightarrow> (h @ [[]])[length h := (h @ [[]]) ! length h @ (h @ [[]]) ! l]"
  have "length h < length ?h" and "take (length h) ?h = h"
    by (simp_all split: option.split)
  from search_rest_result [OF assms(1) order_refl this, of "w # ws" "[0..<length (w # ws) - 1]"]
  obtain h' r where
    "search_rest idx (w # ws) [0..<length (w # ws) - 1] ?h (length h) = (h', Inr r)"
    "r < length h'"
    "h' ! r = foldl (narrow h idx) (?h ! length h) ws"
    by (auto simp only: rest_of_words)
  moreover have "?h ! length h = (case idx w of None \<Rightarrow> [] | Some l \<Rightarrow> h ! l)"
    using assms(1) by (auto simp add: well_formed_def nth_append split: option.split)
  ultimately show ?thesis using assms(2) Cons
    by (simp add: search_def new_list_def)
qed

lemma set_foldl_narrow:
  "D \<in> set (foldl (narrow h idx) acc ts) \<longleftrightarrow>
     D \<in> set acc \<and> (\<forall>t\<in>set ts. \<exists>l. idx t = Some l \<and> D \<in> set (h ! l))"
proof (induction ts arbitrary: acc)
  case Nil
  then show ?case by simp
next
  case (Cons t ts)
  show ?case
  proof (cases "idx t")
    case None
    then show ?thesis by (simp add: narrow_None foldl_narrow_Nil)
  next
    case (Some l)
    with Cons.IH [of "find_intersection acc (h ! l)"] show ?thesis
      by (auto simp add: narrow_Some set_find_intersection)
  qed
qed

lemma foldl_narrow_same:
  "idx t = Some l \<Longrightarrow> distinct (h ! l) \<Longrightarrow>
     foldl (narrow h idx) (h ! l) (replicate n t) = h ! l"
  by (induction n) (simp_all add: narrow_Some find_intersection_self)

text \<open>
  Claim C1. On a store in which every reference of the index is valid, a query with at
  least one term makes \<open>search\<close> return a list, and a document is in that list if and only
  if every term of the query, as written, is a key of the index and the document is in the
  list of each of them. The lists need not be free of duplicates for this.
\<close>

theorem search_conjunctive:
  assumes "well_formed h idx" and "str_split query \<noteq> []"
  shows "\<exists>docs. search_result h idx query = Inr docs
           \<and> (\<forall>D. D \<in> set docs \<longleftrightarrow>
                  (\<forall>t\<in>set (str_split query). \<exists>ds. documents h idx t = Some ds \<and> D \<in> set ds))"
proof -
  from assms(2) obtain w ws where ws: "str_split query = w # ws"
    by (cases "str_split query") auto
  from search_returns [OF assms(1) ws] obtain h' r where
    run: "search h idx query = (h', Inr r)" and
    res: "h' ! r = foldl (narrow h idx) (case idx w of None \<Rightarrow> [] | Some l \<Rightarrow> h ! l) ws"
    by blast
  have "D \<in> set (h' ! r) \<longleftrightarrow>
          (\<forall>t\<in>set (str_split query). \<exists>ds. documents h idx t = Some ds \<and> D \<in> set ds)" for D
    unfolding res set_foldl_narrow ws
    by (cases "idx w") (auto simp add: documents_def)
  with run show ?thesis
    by (simp add: search_result_def)
qed

theorem search_conjunctive_witness:
  "well_formed [[''t1'', ''t2''], [''t1'']] [''ball'' \<mapsto> 0, ''apple'' \<mapsto> 1]
   \<and> str_split ''apple ball'' \<noteq> []
   \<and> (\<exists>docs. search_result [[''t1'', ''t2''], [''t1'']] [''ball'' \<mapsto> 0, ''apple'' \<mapsto> 1]
                ''apple ball'' = Inr docs
          \<and> ''t1'' \<in> set docs \<and> ''t2'' \<notin> set docs)"
proof -
  let ?h = "[[''t1'', ''t2''], [''t1'']]"
  let ?idx = "[''ball'' \<mapsto> 0 :: nat, ''apple'' \<mapsto> 1]"
  have wf: "well_formed ?h ?idx"
    by (auto simp add: well_formed_def split: if_splits)
  have sp: "str_split ''apple ball'' = [''apple'', ''ball'']"
    by code_simp
  then have ne: "str_split ''apple ball'' \<noteq> []"
    by simp
  from search_conjunctive [OF wf ne] obtain docs where
    "search_result ?h ?idx ''apple ball'' = Inr docs" and
    iff: "\<And>D. D \<in> set docs \<longleftrightarrow>
       (\<forall>t\<in>set (str_split ''apple ball''). \<exists>ds. documents ?h ?idx t = Some ds \<and> D \<in> set ds)"
    by blast
  moreover from iff [of "''t1''"] have "''t1'' \<in> set docs"
    unfolding sp by (simp add: documents_def)
  moreover from iff [of "''t2''"] have "''t2'' \<notin> set docs"
    unfolding sp by (simp add: documents_def)
  ultimately show ?thesis
    using wf ne by blast
qed

text \<open>
  Claim C9. \<open>search\<close> changes no list object that existed before the call: the store it
  leaves begins with the store it was given, and the new objects come after. So the index,
  read through its references, has the keys and the lists it had, also when a term is absent
  and the running result is emptied by \<open>pop\<close>. (\<open>search\<close> has no statement that assigns to
  the dictionary itself.)
\<close>

theorem search_frame:
  assumes "well_formed h idx"
  shows "take (length h) (fst (search h idx query)) = h
         \<and> documents (fst (search h idx query)) idx = documents h idx"
proof -
  have frame: "take (length h) (fst (search h idx query)) = h"
    by (rule search_frame_store)
  have "documents (fst (search h idx query)) idx t = documents h idx t" for t
  proof (cases "idx t")
    case None
    then show ?thesis by (simp add: documents_def)
  next
    case (Some l)
    with assms have "l < length h"
      by (simp add: well_formed_def)
    then have "fst (search h idx query) ! l = h ! l"
      using frame by (metis nth_take)
    with Some show ?thesis by (simp add: documents_def)
  qed
  with frame show ?thesis by auto
qed

theorem search_frame_witness:
  "well_formed [[''t1'', ''t2''], [''t1'']] [''ball'' \<mapsto> 0, ''apple'' \<mapsto> 1]
   \<and> take (length [[''t1'', ''t2''], [''t1'']])
         (fst (search [[''t1'', ''t2''], [''t1'']] [''ball'' \<mapsto> 0, ''apple'' \<mapsto> 1]
                 ''ball nope apple'')) = [[''t1'', ''t2''], [''t1'']]
   \<and> documents (fst (search [[''t1'', ''t2''], [''t1'']] [''ball'' \<mapsto> 0, ''apple'' \<mapsto> 1]
                       ''ball nope apple''))
         [''ball'' \<mapsto> 0, ''apple'' \<mapsto> 1] ''ball'' = Some [''t1'', ''t2'']
   \<and> search_result [[''t1'', ''t2''], [''t1'']] [''ball'' \<mapsto> 0, ''apple'' \<mapsto> 1]
        ''ball nope apple'' = Inr []"
proof -
  let ?h = "[[''t1'', ''t2''], [''t1'']]"
  let ?idx = "[''ball'' \<mapsto> 0 :: nat, ''apple'' \<mapsto> 1]"
  have wf: "well_formed ?h ?idx"
    by (auto simp add: well_formed_def split: if_splits)
  have res: "search_result ?h ?idx ''ball nope apple'' = Inr []"
    by code_simp
  have "documents ?h ?idx ''ball'' = Some [''t1'', ''t2'']"
    by (simp add: documents_def)
  with search_frame [OF wf, of "''ball nope apple''"]
  have "take (length ?h) (fst (search ?h ?idx ''ball nope apple'')) = ?h"
    and "documents (fst (search ?h ?idx ''ball nope apple'')) ?idx ''ball''
         = Some [''t1'', ''t2'']"
    by simp_all
  with wf res show ?thesis
    by (simp only: simp_thms)
qed

text \<open>
  Claim C10. \<open>find_intersection l l = l\<close> for a list \<open>l\<close> without duplicates; and when the
  list of a term \<open>t\<close> of the index has no duplicates, a query whose terms are all \<open>t\<close>
  returns what the query \<open>t\<close> alone returns, the contents of that list.
\<close>

theorem intersection_idempotent:
  assumes "distinct xs"
    and "well_formed h idx" and "idx t = Some l" and "distinct (h ! l)"
    and "str_split query = replicate (Suc n) t" and "str_split single = [t]"
  shows "find_intersection xs xs = xs
         \<and> search_result h idx query = search_result h idx single
         \<and> search_result h idx single = Inr (h ! l)"
proof -
  have one: "search_result h idx single = Inr (h ! l)"
    using search_returns [OF assms(2) assms(6)] assms(3)
    by (auto simp add: search_result_def)
  from assms(5) have "str_split query = t # replicate n t"
    by simp
  from search_returns [OF assms(2) this] assms(3) assms(4)
  have "search_result h idx query = Inr (h ! l)"
    by (auto simp add: search_result_def foldl_narrow_same)
  with one assms(1) show ?thesis
    by (simp add: find_intersection_self)
qed

theorem intersection_idempotent_witness:
  "find_intersection [''t1'', ''t2''] [''t1'', ''t2''] = [''t1'', ''t2'']
   \<and> search_result [[''t1'', ''t2'']] [''ball'' \<mapsto> 0] ''ball ball ball''
       = search_result [[''t1'', ''t2'']] [''ball'' \<mapsto> 0] ''ball''
   \<and> search_result [[''t1'', ''t2'']] [''ball'' \<mapsto> 0] ''ball'' = Inr [''t1'', ''t2'']"
proof -
  let ?h = "[[''t1'', ''t2'']]"
  let ?idx = "[''ball'' \<mapsto> 0 :: nat]"
  have wf: "well_formed ?h ?idx"
    by (auto simp add: well_formed_def split: if_splits)
  have q: "str_split ''ball ball ball'' = replicate (Suc 2) ''ball''"
    by code_simp
  have q1: "str_split ''ball'' = [''ball'']"
    by code_simp
  have d: "distinct [''t1'', ''t2'']"
    by simp
  from intersection_idempotent [OF d wf _ _ q q1, of 0] show ?thesis
    by simp
qed

text \<open>
  Claim C2 says that a query without terms yields an empty list. \<open>search\<close> reads
  \<open>words[0]\<close> before it looks at the number of words, so such a query raises IndexError.
\<close>

theorem search_blank_query_raises:
  "search_result [] Map.empty '' '' = Inl IndexError
   \<and> search_result [] Map.empty [] = Inl IndexError"
  by code_simp

section \<open>Properties of the indexer\<close>

subsection \<open>Adding one term\<close>

lemma add_term_titles [simp]: "file_titles (add_term_to_index s t f) = file_titles s"
  by (simp add: add_term_to_index_def new_list_def split: option.split)

lemma add_term_sound: "sound s \<Longrightarrow> sound (add_term_to_index s t f)"
  by (auto simp add: sound_def well_formed_def add_term_to_index_def new_list_def
      less_Suc_eq split: option.split)

lemma no_duplicates_iff:
  "no_duplicates h idx \<longleftrightarrow> (\<forall>t l. idx t = Some l \<longrightarrow> distinct (h ! l))"
  by (auto simp add: no_duplicates_def documents_def)

lemma add_term_no_duplicates:
  assumes "sound s" and "no_duplicates (heap s) (index s)"
  shows "no_duplicates (heap (add_term_to_index s t f)) (index (add_term_to_index s t f))"
proof -
  from assms(1) have len: "l < length (heap s)" if "index s u = Some l" for u l
    using that by (simp add: sound_def well_formed_def)
  from assms(2) have dis: "distinct (heap s ! l)" if "index s u = Some l" for u l
    using that by (auto simp add: no_duplicates_iff)
  show ?thesis
  proof (cases "index s t")
    case None
    have "distinct ((heap s @ [[]])[length (heap s) := [f]] ! l)"
      if "((index s)(t \<mapsto> length (heap s))) u = Some l" for u l
    proof (cases "u = t")
      case True
      with that show ?thesis by auto
    next
      case False
      with that have "index s u = Some l" by simp
      with len dis show ?thesis
        by (simp add: nth_append)
    qed
    with None show ?thesis
      by (simp add: add_term_to_index_def new_list_def no_duplicates_iff)
  next
    case (Some l)
    show ?thesis
    proof (cases "f \<in> set (heap s ! l)")
      case True
      with Some assms(2) show ?thesis
        by (simp add: add_term_to_index_def)
    next
      case False
      have "distinct ((heap s)[l := heap s ! l @ [f]] ! l')" if "index s u = Some l'" for u l'
        using len [OF that] dis [OF that] len [OF Some] dis [OF Some] False
        by (cases "l' = l") simp_all
      with Some False show ?thesis
        by (simp add: add_term_to_index_def no_duplicates_iff)
    qed
  qed
qed

lemma has_add_term_same: "has s t f \<Longrightarrow> add_term_to_index s t f = s"
  by (auto simp add: has_def add_term_to_index_def)

lemma add_term_has: "sound s \<Longrightarrow> has (add_term_to_index s t f) t f"
  by (auto simp add: has_def sound_def well_formed_def add_term_to_index_def new_list_def
      split: option.split)

lemma has_add_term_mono: "has s t f \<Longrightarrow> has (add_term_to_index s t' f') t f"
proof -
  assume "has s t f"
  then obtain l where l: "index s t = Some l" "l < length (heap s)" "f \<in> set (heap s ! l)"
    by (auto simp add: has_def)
  show ?thesis
  proof (cases "index s t'")
    case None
    with l have "t \<noteq> t'" by auto
    with l None show ?thesis
      by (simp add: has_def add_term_to_index_def new_list_def nth_append)
  next
    case (Some l')
    with l show ?thesis
      by (cases "l' = l") (auto simp add: has_def add_term_to_index_def)
  qed
qed

subsection \<open>Adding the words of a line\<close>

lemma index_words_Nil [simp]: "index_words file s [] = s"
  by (simp add: index_words_def)

lemma index_words_Cons [simp]:
  "index_words file s (w # ws) =
     index_words file
       (if clean_word w \<noteq> [] then add_term_to_index s (clean_word w) file else s) ws"
  by (simp add: index_words_def)

lemma index_words_append:
  "index_words file s (xs @ ys) = index_words file (index_words file s xs) ys"
  by (simp add: index_words_def)

lemma index_words_titles [simp]: "file_titles (index_words file s ws) = file_titles s"
  by (induction ws arbitrary: s) simp_all

lemma index_words_sound: "sound s \<Longrightarrow> sound (index_words file s ws)"
  by (induction ws arbitrary: s) (simp_all add: add_term_sound)

lemma index_words_no_duplicates:
  "sound s \<Longrightarrow> no_duplicates (heap s) (index s) \<Longrightarrow>
     no_duplicates (heap (index_words file s ws)) (index (index_words file s ws))"
  by (induction ws arbitrary: s) (simp_all add: add_term_sound add_term_no_duplicates)

lemma has_index_words_mono: "has s t f \<Longrightarrow> has (index_words file s ws) t f"
  by (induction ws arbitrary: s) (simp_all add: has_add_term_mono)

lemma index_words_same:
  "(\<And>w. w \<in> set ws \<Longrightarrow> clean_word w \<noteq> [] \<Longrightarrow> has s (clean_word w) file) \<Longrightarrow>
     index_words file s ws = s"
  by (induction ws) (simp_all add: has_add_term_same)

lemma index_words_has:
  "sound s \<Longrightarrow> w \<in> set ws \<Longrightarrow> clean_word w \<noteq> [] \<Longrightarrow>
     has (index_words file s ws) (clean_word w) file"
proof (induction ws arbitrary: s)
  case Nil
  then show ?case by simp
next
  case (Cons x ws)
  let ?s = "if clean_word x \<noteq> [] then add_term_to_index s (clean_word x) file else s"
  from Cons.prems have snd: "sound ?s"
    by (simp add: add_term_sound)
  show ?case
  proof (cases "w \<in> set ws")
    case True
    from Cons.IH [OF snd True Cons.prems(3)] show ?thesis by simp
  next
    case False
    with Cons.prems have "w = x" by simp
    with Cons.prems have "has ?s (clean_word w) file"
      by (simp add: add_term_has)
    then have "has (index_words file ?s ws) (clean_word w) file"
      by (rule has_index_words_mono)
    then show ?thesis by simp
  qed
qed

subsection \<open>Indexing one file\<close>

lemma index_lines:
  "foldl (\<lambda>s line. index_words file s (make_list_of_words line)) s rest
   = index_words file s (concat (map make_list_of_words rest))"
  by (induction rest arbitrary: s) (simp_all add: index_words_append)

lemma index_file_Some:
  assumes "fs file = Some content" and "readlines content = first # rest"
  shows "index_file fs s file
         = Inr (index_words file (set_title s file (butlast first)) (file_words first rest))"
  using assms
  by (simp add: index_file_def set_title_def file_words_def index_lines index_words_append
      Let_def)

lemma index_file_cases:
  obtains (missing) "fs file = None" and "\<And>s. index_file fs s file = Inl FileNotFoundError"
  | (empty) content where "fs file = Some content" and "readlines content = []"
      and "\<And>s. index_file fs s file = Inl StopIteration"
  | (read) content first rest where "fs file = Some content" and "readlines content = first # rest"
      and "\<And>s. index_file fs s file
         = Inr (index_words file (set_title s file (butlast first)) (file_words first rest))"
proof (cases "fs file")
  case None
  then show ?thesis
    using missing by (simp add: index_file_def)
next
  case (Some content)
  show ?thesis
  proof (cases "readlines content")
    case Nil
    with Some show ?thesis
      using empty by (simp add: index_file_def)
  next
    case (Cons first rest)
    with Some show ?thesis
      using read index_file_Some by blast
  qed
qed

lemma set_title_heap [simp]:
  "heap (set_title s file title) = heap s" "index (set_title s file title) = index s"
  by (simp_all add: set_title_def)

lemma set_title_sound: "sound s \<Longrightarrow> sound (set_title s file title)"
  by (simp add: sound_def)

lemma has_set_title [simp]: "has (set_title s file title) t f = has s t f"
  by (simp add: has_def)

lemma titled_set_title: "titled (set_title s file title) file title"
  by (simp add: titled_def set_title_def)

lemma titled_same: "titled s file title \<Longrightarrow> set_title s file title = s"
proof (cases "file_titles s title")
  case None
  assume "titled s file title"
  with None have "(file_titles s)(file \<mapsto> title) = file_titles s"
    by (simp add: titled_def fun_upd_idem)
  with None show ?thesis
    by (simp add: set_title_def)
next
  case (Some a)
  then show ?thesis
    by (simp add: set_title_def)
qed

lemma titled_index_words [simp]: "titled (index_words g s ws) file title = titled s file title"
  by (simp add: titled_def)

lemma index_file_sound:
  "sound s \<Longrightarrow> index_file fs s file = Inr s' \<Longrightarrow> sound s'"
  by (cases fs "file" rule: index_file_cases) (auto simp add: index_words_sound set_title_sound)

lemma index_file_no_duplicates:
  assumes "sound s" and "no_duplicates (heap s) (index s)" and "index_file fs s file = Inr s'"
  shows "no_duplicates (heap s') (index s')"
proof (cases fs "file" rule: index_file_cases)
  case (read content first rest)
  have "sound (set_title s file (butlast first))"
    using assms(1) by (rule set_title_sound)
  moreover have "no_duplicates (heap (set_title s file (butlast first)))
      (index (set_title s file (butlast first)))"
    using assms(2) by simp
  ultimately show ?thesis
    using assms(3) read(3) [of s] by (auto simp add: index_words_no_duplicates)
qed (use assms(3) in simp_all)

lemma index_file_absorbs:
  assumes "sound s" and "index_file fs s file = Inr s'"
  shows "absorbed fs s' file"
proof (cases fs "file" rule: index_file_cases)
  case (read content first rest)
  let ?s = "set_title s file (butlast first)"
  from assms(2) read(3) [of s] have s': "s' = index_words file ?s (file_words first rest)"
    by simp
  have "sound ?s"
    using assms(1) by (rule set_title_sound)
  then have "has s' (clean_word w) file"
    if "w \<in> set (file_words first rest)" "clean_word w \<noteq> []" for w
    unfolding s' using that by (rule index_words_has)
  moreover have "titled s' file (butlast first)"
    unfolding s' by (simp add: titled_set_title)
  ultimately show ?thesis
    using read(1,2) by (simp add: absorbed_def)
qed (simp_all add: absorbed_def)

lemma absorbed_fixed:
  assumes "absorbed fs s file" and "index_file fs s0 file = Inr s1"
  shows "index_file fs s file = Inr s"
proof (cases fs "file" rule: index_file_cases)
  case (read content first rest)
  from assms(1) read(1,2) have "titled s file (butlast first)"
    and "\<And>w. w \<in> set (file_words first rest) \<Longrightarrow> clean_word w \<noteq> [] \<Longrightarrow>
           has s (clean_word w) file"
    by (simp_all add: absorbed_def)
  then show ?thesis
    by (simp add: read(3) titled_same index_words_same)
qed (use assms(2) in simp_all)

lemma absorbed_mono:
  assumes "absorbed fs s f" and "index_file fs s g = Inr s'"
  shows "absorbed fs s' f"
proof (cases fs g rule: index_file_cases)
  case g: (read gcontent gfirst grest)
  let ?s = "set_title s g (butlast gfirst)"
  from assms(2) g(3) [of s] have s': "s' = index_words g ?s (file_words gfirst grest)"
    by simp
  show ?thesis
  proof (cases fs f rule: index_file_cases)
    case f: (read content first rest)
    from assms(1) f(1,2) have t: "titled s f (butlast first)"
      and h: "\<And>w. w \<in> set (file_words first rest) \<Longrightarrow> clean_word w \<noteq> [] \<Longrightarrow>
           has s (clean_word w) f"
      by (simp_all add: absorbed_def)
    have "titled ?s f (butlast first)"
    proof (cases "f = g")
      case True
      with f(1,2) g(1,2) have "gfirst = first" by simp
      with True show ?thesis by (simp add: titled_set_title)
    next
      case False
      with t show ?thesis
        by (auto simp add: titled_def set_title_def)
    qed
    then have "titled s' f (butlast first)"
      unfolding s' by simp
    moreover have "has s' (clean_word w) f"
      if "w \<in> set (file_words first rest)" "clean_word w \<noteq> []" for w
      unfolding s' using h [OF that] by (simp add: has_index_words_mono)
    ultimately show ?thesis
      using f(1,2) by (simp add: absorbed_def)
  qed (simp_all add: absorbed_def)
qed (use assms(2) in simp_all)

subsection \<open>Indexing a list of files\<close>

lemma create_index_sound:
  "sound s \<Longrightarrow> sound (fst (create_index fs files s))"
proof (induction files arbitrary: s)
  case Nil
  then show ?case by simp
next
  case (Cons doc docs)
  then show ?case
    by (cases "index_file fs s doc") (auto dest: index_file_sound)
qed

lemma create_index_no_duplicates:
  "sound s \<Longrightarrow> no_duplicates (heap s) (index s) \<Longrightarrow>
     no_duplicates (heap (fst (create_index fs files s))) (index (fst (create_index fs files s)))"
proof (induction files arbitrary: s)
  case Nil
  then show ?case by simp
next
  case (Cons doc docs)
  show ?case
  proof (cases "index_file fs s doc")
    case (Inl e)
    with Cons.prems show ?thesis by simp
  next
    case (Inr s')
    with Cons.prems have "sound s'" and "no_duplicates (heap s') (index s')"
      by (auto dest: index_file_sound index_file_no_duplicates)
    from Cons.IH [OF this] Inr show ?thesis by simp
  qed
qed

lemma create_index_settles:
  assumes "sound s" and "\<And>f. f \<in> set seen \<Longrightarrow> absorbed fs s f"
  shows "(\<forall>f\<in>set seen. absorbed fs (fst (create_index fs files s)) f)
         \<and> create_index fs files (fst (create_index fs files s)) = create_index fs files s"
  using assms
proof (induction files arbitrary: s seen)
  case Nil
  then show ?case by simp
next
  case (Cons doc docs)
  show ?case
  proof (cases "index_file fs s doc")
    case (Inl e)
    with Cons.prems show ?thesis by simp
  next
    case (Inr s1)
    let ?s' = "fst (create_index fs docs s1)"
    from Cons.prems(1) Inr have "sound s1"
      by (rule index_file_sound)
    moreover have "absorbed fs s1 f" if "f \<in> set (doc # seen)" for f
    proof (cases "f = doc")
      case True
      with Cons.prems(1) Inr show ?thesis
        by (simp add: index_file_absorbs)
    next
      case False
      with that have "absorbed fs s f"
        by (simp add: Cons.prems(2))
      then show ?thesis using Inr by (rule absorbed_mono)
    qed
    ultimately have ih: "\<forall>f\<in>set (doc # seen). absorbed fs ?s' f"
      and again: "create_index fs docs ?s' = create_index fs docs s1"
      using Cons.IH [of s1 "doc # seen"] by blast+
    from ih have "absorbed fs ?s' doc" by simp
    then have "index_file fs ?s' doc = Inr ?s'"
      using Inr by (rule absorbed_fixed)
    with again ih Inr show ?thesis by simp
  qed
qed

subsection \<open>The claims about the indexer\<close>

lemma sample_state_sound: "well_formed (heap sample_state) (index sample_state)"
  by (auto simp add: sample_state_def well_formed_def split: if_splits)

lemma sample_state_no_duplicates: "no_duplicates (heap sample_state) (index sample_state)"
  by (auto simp add: sample_state_def no_duplicates_iff split: if_splits)

text \<open>
  Claim C8. Every call of \<open>create_index\<close> preserves the invariant that no list of the index
  holds a file name twice: if it holds before the call (on a store in which every reference
  of the index is valid), it holds after it, whatever the files contain and however often a
  file name is repeated in \<open>filenames\<close> or was indexed before.
\<close>

theorem create_index_keeps_lists_distinct:
  assumes "well_formed (heap s) (index s)" and "no_duplicates (heap s) (index s)"
  shows "no_duplicates (heap (fst (create_index fs filenames s)))
           (index (fst (create_index fs filenames s)))"
  using assms by (simp add: create_index_no_duplicates sound_def)

theorem create_index_keeps_lists_distinct_witness:
  "well_formed (heap sample_state) (index sample_state)
   \<and> no_duplicates (heap sample_state) (index sample_state)
   \<and> no_duplicates
        (heap (fst (create_index sample_files [''a.txt'', ''b.txt'', ''a.txt''] sample_state)))
        (index (fst (create_index sample_files [''a.txt'', ''b.txt'', ''a.txt''] sample_state)))
   \<and> documents
        (heap (fst (create_index sample_files [''a.txt'', ''b.txt'', ''a.txt''] sample_state)))
        (index (fst (create_index sample_files [''a.txt'', ''b.txt'', ''a.txt''] sample_state)))
        ''apple'' = Some [''a.txt'', ''b.txt'']"
proof -
  have "documents
        (heap (fst (create_index sample_files [''a.txt'', ''b.txt'', ''a.txt''] sample_state)))
        (index (fst (create_index sample_files [''a.txt'', ''b.txt'', ''a.txt''] sample_state)))
        ''apple'' = Some [''a.txt'', ''b.txt'']"
    by code_simp
  with create_index_keeps_lists_distinct [OF sample_state_sound sample_state_no_duplicates,
      of sample_files "[''a.txt'', ''b.txt'', ''a.txt'']"]
    sample_state_sound sample_state_no_duplicates
  show ?thesis by (simp only: simp_thms)
qed

text \<open>
  Claim C6. Calling \<open>create_index\<close> a second time with the same file names, on the same
  files, changes nothing: the second call returns the state the first one left (store, index
  and titles), and ends the way the first one did. The starting dictionaries are arbitrary;
  the references of the starting index are valid, as every Python reference is.
\<close>

theorem create_index_idempotent:
  assumes "well_formed (heap s) (index s)"
  shows "create_index fs filenames (fst (create_index fs filenames s))
         = create_index fs filenames s"
  using create_index_settles [of s "[]" fs filenames] assms by (simp add: sound_def)

theorem create_index_idempotent_witness:
  "well_formed (heap sample_state) (index sample_state)
   \<and> create_index sample_files [''a.txt'', ''b.txt'']
        (fst (create_index sample_files [''a.txt'', ''b.txt''] sample_state))
       = create_index sample_files [''a.txt'', ''b.txt''] sample_state
   \<and> file_titles (fst (create_index sample_files [''a.txt'', ''b.txt''] sample_state)) ''b.txt''
       = Some ''B''"
proof -
  have "file_titles (fst (create_index sample_files [''a.txt'', ''b.txt''] sample_state)) ''b.txt''
       = Some ''B''"
    by code_simp
  with create_index_idempotent [OF sample_state_sound, of sample_files "[''a.txt'', ''b.txt'']"]
    sample_state_sound
  show ?thesis by (simp only: simp_thms)
qed

text \<open>
  Claim C3 says that a title already stored for a file name survives a second indexing of
  that name. The test in \<open>create_index\<close> looks the title up among the keys of
  \<open>file_titles\<close>, which are file names, so it almost never finds it: the second call
  overwrites the entry.
\<close>

theorem reindexing_overwrites_title:
  "file_titles
     (fst (create_index [''doc.txt'' \<mapsto> ''Old Title'' @ [newline]] [''doc.txt''] empty_state))
     ''doc.txt'' = Some ''Old Title''
   \<and> file_titles
        (fst (create_index [''doc.txt'' \<mapsto> ''New Title'' @ [newline]] [''doc.txt'']
           (fst (create_index [''doc.txt'' \<mapsto> ''Old Title'' @ [newline]] [''doc.txt'']
              empty_state))))
        ''doc.txt'' = Some ''New Title''"
  by code_simp

text \<open>
  Claim C4 says that the stored title is the first line without its line terminator, and
  that a first line without one is stored as it is. \<open>next(f)[:-1]\<close> drops the last
  character whatever it is: the one-line file \<open>Hello\<close> gets the title \<open>Hell\<close>.
\<close>

theorem title_without_newline_loses_last_character:
  "snd (create_index [''d.txt'' \<mapsto> ''Hello''] [''d.txt''] empty_state) = None
   \<and> file_titles (fst (create_index [''d.txt'' \<mapsto> ''Hello''] [''d.txt''] empty_state))
        ''d.txt'' = Some ''Hell''
   \<and> file_titles
        (fst (create_index [''d.txt'' \<mapsto> ''Hello'' @ [newline]] [''d.txt''] empty_state))
        ''d.txt'' = Some ''Hello''"
  by code_simp

text \<open>
  Claim C7 says that, starting from empty dictionaries, every file that contributed a term
  to the index has a title. The second file below has the first file's name as its title;
  that title is a key of \<open>file_titles\<close> already, so no title is stored for the file,
  while its words are indexed.
\<close>

theorem indexed_document_without_title:
  "snd (create_index
          [''a.txt'' \<mapsto> ''Hello'' @ [newline],
           ''b.txt'' \<mapsto> ''a.txt'' @ [newline] @ ''world'' @ [newline]]
          [''a.txt'', ''b.txt''] empty_state) = None
   \<and> file_titles
        (fst (create_index
                [''a.txt'' \<mapsto> ''Hello'' @ [newline],
                 ''b.txt'' \<mapsto> ''a.txt'' @ [newline] @ ''world'' @ [newline]]
                [''a.txt'', ''b.txt''] empty_state)) ''b.txt'' = None
   \<and> documents
        (heap (fst (create_index
                [''a.txt'' \<mapsto> ''Hello'' @ [newline],
                 ''b.txt'' \<mapsto> ''a.txt'' @ [newline] @ ''world'' @ [newline]]
                [''a.txt'', ''b.txt''] empty_state)))
        (index (fst (create_index
                [''a.txt'' \<mapsto> ''Hello'' @ [newline],
                 ''b.txt'' \<mapsto> ''a.txt'' @ [newline] @ ''world'' @ [newline]]
                [''a.txt'', ''b.txt''] empty_state))) ''world'' = Some [''b.txt'']"
  by code_simp

end
